theory Spec2Isabelle
  imports Main "HOL-Library.AList" "HOL-Library.Sublist"
begin

section \<open>MLIR analysis management: the embedding of AnalysisManager.h\<close>

text \<open>
  The header \<^verbatim>\<open>mlir/Pass/AnalysisManager.h\<close> caches analyses per operation. The
  embedding follows its classes in their order: \<^verbatim>\<open>PreservedAnalyses\<close>, the
  \<^verbatim>\<open>analysis_impl::isInvalidated\<close> overloads, \<^verbatim>\<open>AnalysisConcept\<close> and
  \<^verbatim>\<open>AnalysisModel\<close>, \<^verbatim>\<open>AnalysisMap\<close>, \<^verbatim>\<open>NestedAnalysisMap\<close>,
  \<^verbatim>\<open>AnalysisManager\<close> and \<^verbatim>\<open>ModuleAnalysisManager\<close>.
\<close>

subsection \<open>Identities\<close>

text \<open>
  An \<^verbatim>\<open>Operation *\<close> is used by the header only as an identity (a key of a
  \<^verbatim>\<open>DenseMap\<close>, an argument handed on). A \<^verbatim>\<open>TypeID\<close> is the unique identity of a
  C++ type: \<^verbatim>\<open>TypeID::get<AllAnalysesType>()\<close> is the identity of the private
  struct of \<^verbatim>\<open>PreservedAnalyses\<close>, every analysis class has an identity of its own.
\<close>

type_synonym Operation = nat

datatype TypeID = AllAnalysesType | AnalysisTypeID nat

subsection \<open>PreservedAnalyses\<close>

text \<open>
  The class has one member, \<^verbatim>\<open>SmallPtrSet<TypeID, 2> preservedIDs\<close>; a
  default-constructed object holds the empty set.
\<close>

record PreservedAnalyses =
  preservedIDs :: "TypeID set"

definition PreservedAnalyses_new :: PreservedAnalyses where
  "PreservedAnalyses_new = \<lparr>preservedIDs = {}\<rparr>"

definition preserveAll :: "PreservedAnalyses \<Rightarrow> PreservedAnalyses" where
  "preserveAll pa = pa\<lparr>preservedIDs := insert AllAnalysesType (preservedIDs pa)\<rparr>"

definition isAll :: "PreservedAnalyses \<Rightarrow> bool" where
  "isAll pa = (AllAnalysesType \<in> preservedIDs pa)"

definition isNone :: "PreservedAnalyses \<Rightarrow> bool" where
  "isNone pa = (preservedIDs pa = {})"

definition preserve :: "TypeID \<Rightarrow> PreservedAnalyses \<Rightarrow> PreservedAnalyses" where
  "preserve tid pa = pa\<lparr>preservedIDs := insert tid (preservedIDs pa)\<rparr>"

definition isPreserved :: "PreservedAnalyses \<Rightarrow> TypeID \<Rightarrow> bool" where
  "isPreserved pa tid = (tid \<in> preservedIDs pa)"

text \<open>
  The calls a pass can make on a set, for statements about every history of a set: the
  variadic \<^verbatim>\<open>preserve<T1, T2, ...>()\<close> is the sequence of its single calls.
\<close>

datatype PreserveCall = Preserve TypeID | PreserveAll

fun preserveCall :: "PreserveCall \<Rightarrow> PreservedAnalyses \<Rightarrow> PreservedAnalyses" where
  "preserveCall (Preserve tid) pa = preserve tid pa"
| "preserveCall PreserveAll pa = preserveAll pa"

fun preserveCalls :: "PreserveCall list \<Rightarrow> PreservedAnalyses \<Rightarrow> PreservedAnalyses" where
  "preserveCalls [] pa = pa"
| "preserveCalls (c # cs) pa = preserveCalls cs (preserveCall c pa)"

subsection \<open>Analysis classes\<close>

text \<open>
  The templates of the header are instantiated with an analysis class \<^verbatim>\<open>AnalysisT\<close>.
  What they use of the class is its \<^verbatim>\<open>TypeID::get<AnalysisT>()\<close>, its
  \<^verbatim>\<open>llvm::getTypeName<AnalysisT>()\<close>, its constructor from the operation, and the
  member \<^verbatim>\<open>isInvalidated(const PreservedAnalyses &)\<close> when the class has one
  (\<^verbatim>\<open>has_is_invalidated\<close>). The analysis objects of all classes are values of one
  type \<open>'a\<close>, as they are all \<^verbatim>\<open>AnalysisConcept\<close>s in the cache.
\<close>

record 'a AnalysisT =
  typeID :: TypeID
  typeName :: string
  construct :: "Operation \<Rightarrow> 'a"
  isInvalidatedMember :: "('a \<Rightarrow> PreservedAnalyses \<Rightarrow> bool) option"

text \<open>
  \<^verbatim>\<open>analysis_impl::isInvalidated\<close>: the first overload is enabled when the class
  provides the member, the second (the default) otherwise.
\<close>

definition analysis_impl_isInvalidated ::
  "'a AnalysisT \<Rightarrow> 'a \<Rightarrow> PreservedAnalyses \<Rightarrow> bool" where
  "analysis_impl_isInvalidated T a pa =
     (case isInvalidatedMember T of
        Some member \<Rightarrow> member a pa
      | None \<Rightarrow> \<not> isPreserved pa (typeID T))"

subsection \<open>AnalysisConcept and AnalysisModel\<close>

text \<open>
  An \<^verbatim>\<open>AnalysisModel<AnalysisT>\<close> holds the analysis object. The cache owns it
  through a \<^verbatim>\<open>unique_ptr\<close> and hands out references to the object, so the model
  gives every constructed object a serial number \<open>instanceNo\<close>: two references are to
  the same object when the numbers agree.
\<close>

datatype 'a AnalysisConcept =
  AnalysisModel (modelT: "'a AnalysisT") (instanceNo: nat) (analysis: 'a)

definition isInvalidated :: "'a AnalysisConcept \<Rightarrow> PreservedAnalyses \<Rightarrow> bool" where
  "isInvalidated c pa = analysis_impl_isInvalidated (modelT c) (analysis c) pa"

text \<open>
  A cell whose class has its own \<^verbatim>\<open>isInvalidated\<close> member, written so that it
  never asks for invalidation when \<^verbatim>\<open>isAll()\<close> holds of the set.
\<close>

definition respectsIsAll :: "'a AnalysisConcept \<Rightarrow> bool" where
  "respectsIsAll c =
     (\<exists>member. isInvalidatedMember (modelT c) = Some member
        \<and> (\<forall>pa. isAll pa \<longrightarrow> \<not> member (analysis c) pa))"

text \<open>A \<^verbatim>\<open>reference_wrapper<AnalysisT>\<close>: which object, and the object.\<close>

type_synonym 'a reference = "nat \<times> 'a"

definition analysisRef :: "'a AnalysisConcept \<Rightarrow> 'a reference" where
  "analysisRef c = (instanceNo c, analysis c)"

subsection \<open>What the cache does to its surroundings\<close>

text \<open>
  Computing an analysis has two effects outside the cache: an object is constructed,
  and the \<^verbatim>\<open>PassInstrumentor\<close>, when there is one, is notified. Both are recorded
  in order in \<open>events\<close>; \<open>nextInstance\<close> is the serial number of the next object.
\<close>

type_synonym PassInstrumentor = nat

datatype Event =
    RunBeforeAnalysis PassInstrumentor string TypeID Operation
  | Constructed TypeID Operation nat
  | RunAfterAnalysis PassInstrumentor string TypeID Operation

record World =
  events :: "Event list"
  nextInstance :: nat

definition World_new :: World where
  "World_new = \<lparr>events = [], nextInstance = 0\<rparr>"

text \<open>
  Reading a record of events: \<open>notifiedAround p es\<close> holds when \<open>es\<close> is a sequence
  of groups, each one a notification before, one construction and a notification
  after, all three of the same analysis on the same operation and both notifications
  to \<open>p\<close>. \<open>constructions\<close> counts the objects constructed.
\<close>

fun notifiedAround :: "PassInstrumentor \<Rightarrow> Event list \<Rightarrow> bool" where
  "notifiedAround p [] = True"
| "notifiedAround p
     (RunBeforeAnalysis p1 n1 t1 o1 # Constructed t2 o2 i # RunAfterAnalysis p3 n3 t3 o3 # es) =
     (p1 = p \<and> p3 = p \<and> n3 = n1 \<and> t2 = t1 \<and> t3 = t1 \<and> o2 = o1 \<and> o3 = o1
      \<and> notifiedAround p es)"
| "notifiedAround p es = False"

fun constructions :: "Event list \<Rightarrow> nat" where
  "constructions [] = 0"
| "constructions (Constructed t opr i # es) = Suc (constructions es)"
| "constructions (e # es) = constructions es"

text \<open>
  Modelled from the spec: \<^verbatim>\<open>PassInstrumentor::runBeforeAnalysis\<close> and
  \<^verbatim>\<open>runAfterAnalysis\<close> are declared in \<^verbatim>\<open>mlir/Pass/PassInstrumentation.h\<close>,
  which is not among the sources. The sink receives the notification (name, id,
  operation); the model records that it did.
\<close>

definition runBeforeAnalysis ::
  "PassInstrumentor \<Rightarrow> string \<Rightarrow> TypeID \<Rightarrow> Operation \<Rightarrow> World \<Rightarrow> World" where
  "runBeforeAnalysis pi name tid opr w =
     w\<lparr>events := events w @ [RunBeforeAnalysis pi name tid opr]\<rparr>"

definition runAfterAnalysis ::
  "PassInstrumentor \<Rightarrow> string \<Rightarrow> TypeID \<Rightarrow> Operation \<Rightarrow> World \<Rightarrow> World" where
  "runAfterAnalysis pi name tid opr w =
     w\<lparr>events := events w @ [RunAfterAnalysis pi name tid opr]\<rparr>"

text \<open>\<^verbatim>\<open>std::make_unique<AnalysisModel<AnalysisT>>(op)\<close>: runs the constructor.\<close>

definition make_unique_AnalysisModel ::
  "'a AnalysisT \<Rightarrow> Operation \<Rightarrow> World \<Rightarrow> 'a AnalysisConcept \<times> World" where
  "make_unique_AnalysisModel T opr w =
     (AnalysisModel T (nextInstance w) (construct T opr),
      w\<lparr>events := events w @ [Constructed (typeID T) opr (nextInstance w)],
        nextInstance := Suc (nextInstance w)\<rparr>)"

subsection \<open>AnalysisMap\<close>

text \<open>
  \<^verbatim>\<open>StringRef::consume_front\<close> (LLVM's ADT, not among the sources): when the string
  starts with the prefix, drop the prefix and answer true; otherwise leave the string.
\<close>

definition consume_front :: "string \<Rightarrow> string \<Rightarrow> bool \<times> string" where
  "consume_front pre name =
     (if take (length pre) name = pre then (True, drop (length pre) name) else (False, name))"

definition getAnalysisName :: "'a AnalysisT \<Rightarrow> string" where
  "getAnalysisName T =
     (case consume_front ''mlir::'' (typeName T) of
        (True, name) \<Rightarrow> name
      | (False, name) \<Rightarrow> snd (consume_front ''(anonymous namespace)::'' name))"

text \<open>
  \<^verbatim>\<open>ConceptMap\<close> is a \<^verbatim>\<open>DenseMap<TypeID, std::unique_ptr<AnalysisConcept>>\<close>. It is
  modelled by the list of its entries in the order in which the loop of
  \<^verbatim>\<open>invalidate\<close> visits them; \<^verbatim>\<open>find\<close> is \<^const>\<open>map_of\<close>. That no key occurs
  twice is not assumed by the type: it is the invariant \<open>oneCellPerType\<close> below.
\<close>

record 'a AnalysisMap =
  ir :: Operation
  analyses :: "(TypeID \<times> 'a AnalysisConcept) list"

definition AnalysisMap_new :: "Operation \<Rightarrow> 'a AnalysisMap" where
  "AnalysisMap_new opr = \<lparr>ir = opr, analyses = []\<rparr>"

definition oneCellPerType :: "'a AnalysisMap \<Rightarrow> bool" where
  "oneCellPerType m = distinct (map fst (analyses m))"

definition getCachedAnalysis :: "'a AnalysisT \<Rightarrow> 'a AnalysisMap \<Rightarrow> 'a reference option" where
  "getCachedAnalysis T m =
     (case map_of (analyses m) (typeID T) of
        None \<Rightarrow> None
      | Some c \<Rightarrow> Some (analysisRef c))"

definition getOperation :: "'a AnalysisMap \<Rightarrow> Operation" where
  "getOperation m = ir m"

definition AnalysisMap_clear :: "'a AnalysisMap \<Rightarrow> 'a AnalysisMap" where
  "AnalysisMap_clear m = m\<lparr>analyses := []\<rparr>"

text \<open>
  The loop of \<^verbatim>\<open>invalidate\<close>: \<^verbatim>\<open>curIt = it++\<close> visits every entry once, and an
  entry is erased when its \<^verbatim>\<open>isInvalidated(pa)\<close> answers true.
\<close>

fun invalidate_loop ::
  "PreservedAnalyses \<Rightarrow> (TypeID \<times> 'a AnalysisConcept) list \<Rightarrow> (TypeID \<times> 'a AnalysisConcept) list" where
  "invalidate_loop pa [] = []"
| "invalidate_loop pa (curIt # it) =
     (if isInvalidated (snd curIt) pa then invalidate_loop pa it
      else curIt # invalidate_loop pa it)"

definition AnalysisMap_invalidate :: "PreservedAnalyses \<Rightarrow> 'a AnalysisMap \<Rightarrow> 'a AnalysisMap" where
  "AnalysisMap_invalidate pa m = m\<lparr>analyses := invalidate_loop pa (analyses m)\<rparr>"

text \<open>
  \<^verbatim>\<open>getAnalysisImpl\<close>: \<^verbatim>\<open>try_emplace(id)\<close> finds the entry of \<open>id\<close> or adds one;
  only when it added one are the instrumentor notified and the analysis constructed.
  The new entry and the assignment of its \<^verbatim>\<open>unique_ptr\<close> are one step of the model.
  The result is the reference returned, the surroundings and the cache afterwards.
\<close>

definition getAnalysisImpl ::
  "'a AnalysisT \<Rightarrow> PassInstrumentor option \<Rightarrow> Operation \<Rightarrow> World \<Rightarrow> 'a AnalysisMap \<Rightarrow>
     'a reference \<times> World \<times> 'a AnalysisMap" where
  "getAnalysisImpl T pi opr w m =
     (let tid = typeID T in
      case map_of (analyses m) tid of
        Some c \<Rightarrow> (analysisRef c, w, m)
      | None \<Rightarrow>
         (let w1 = (case pi of
                      Some p \<Rightarrow> runBeforeAnalysis p (getAnalysisName T) tid (ir m) w
                    | None \<Rightarrow> w);
              (c, w2) = make_unique_AnalysisModel T opr w1;
              w3 = (case pi of
                      Some p \<Rightarrow> runAfterAnalysis p (getAnalysisName T) tid (ir m) w2
                    | None \<Rightarrow> w2)
          in (analysisRef c, w3, m\<lparr>analyses := analyses m @ [(tid, c)]\<rparr>)))"

text \<open>\<^verbatim>\<open>getAnalysis<AnalysisT>(pi)\<close>, the overload that constructs from \<^verbatim>\<open>ir\<close>.\<close>

definition AnalysisMap_getAnalysis ::
  "'a AnalysisT \<Rightarrow> PassInstrumentor option \<Rightarrow> World \<Rightarrow> 'a AnalysisMap \<Rightarrow>
     'a reference \<times> World \<times> 'a AnalysisMap" where
  "AnalysisMap_getAnalysis T pi w m = getAnalysisImpl T pi (ir m) w m"

text \<open>
  The calls a client can make on one \<^verbatim>\<open>AnalysisMap\<close>, for statements about every
  sequence of calls. \<^verbatim>\<open>getCachedAnalysis\<close> is a \<^verbatim>\<open>const\<close> member that is handed no
  instrumentor: it leaves the cache and the surroundings as they are.
\<close>

datatype 'a MapCall =
    GetAnalysis "'a AnalysisT"
  | GetCachedAnalysis "'a AnalysisT"
  | Invalidate PreservedAnalyses
  | Clear

fun mapCall ::
  "PassInstrumentor option \<Rightarrow> 'a MapCall \<Rightarrow> World \<times> 'a AnalysisMap \<Rightarrow> World \<times> 'a AnalysisMap" where
  "mapCall pi (GetAnalysis T) (w, m) = snd (AnalysisMap_getAnalysis T pi w m)"
| "mapCall pi (GetCachedAnalysis T) (w, m) = (w, m)"
| "mapCall pi (Invalidate pa) (w, m) = (w, AnalysisMap_invalidate pa m)"
| "mapCall pi Clear (w, m) = (w, AnalysisMap_clear m)"

fun mapCalls ::
  "PassInstrumentor option \<Rightarrow> 'a MapCall list \<Rightarrow> World \<times> 'a AnalysisMap \<Rightarrow> World \<times> 'a AnalysisMap" where
  "mapCalls pi [] s = s"
| "mapCalls pi (c # cs) s = mapCalls pi cs (mapCall pi c s)"

subsection \<open>NestedAnalysisMap\<close>

text \<open>
  A \<^verbatim>\<open>NestedAnalysisMap\<close> owns the maps of its child operations through
  \<^verbatim>\<open>unique_ptr\<close>s, so the maps of one compilation form a tree. The member
  \<^verbatim>\<open>parentOrInstrumentor\<close> is represented by the position in that tree: the parent
  of a map is the map that holds it in \<^verbatim>\<open>childAnalyses\<close>, and the instrumentor of
  the top-level map, which \<^verbatim>\<open>getPassInstrumentor\<close> reaches by walking up the
  parents, is handed to the operations that need it.
\<close>

datatype 'a NestedAnalysisMap =
  NestedAnalysisMap
    (childAnalyses: "(Operation \<times> 'a NestedAnalysisMap) list")
    (analyses_map: "'a AnalysisMap")

definition NestedAnalysisMap_new :: "Operation \<Rightarrow> 'a NestedAnalysisMap" where
  "NestedAnalysisMap_new opr = NestedAnalysisMap [] (AnalysisMap_new opr)"

definition NestedAnalysisMap_getOperation :: "'a NestedAnalysisMap \<Rightarrow> Operation" where
  "NestedAnalysisMap_getOperation n = getOperation (analyses_map n)"

text \<open>
  Modelled from the spec: \<^verbatim>\<open>NestedAnalysisMap::invalidate\<close> is only declared in the
  header; its body is not among the sources. The specification says of it: invalidate
  this node's own per-node cache only, the decision to cascade into children being the
  caller's.
\<close>

definition NestedAnalysisMap_invalidate ::
  "PreservedAnalyses \<Rightarrow> 'a NestedAnalysisMap \<Rightarrow> 'a NestedAnalysisMap" where
  "NestedAnalysisMap_invalidate pa n =
     NestedAnalysisMap (childAnalyses n) (AnalysisMap_invalidate pa (analyses_map n))"

subsection \<open>AnalysisManager\<close>

text \<open>
  An \<^verbatim>\<open>AnalysisManager\<close> is the pointer \<^verbatim>\<open>impl\<close> to a \<^verbatim>\<open>NestedAnalysisMap\<close>.
  Each member is modelled on the map \<^verbatim>\<open>*impl\<close>; \<open>implNode\<close> and \<open>implUpdate\<close>
  below place that map in the tree. \<open>pi\<close> is what \<^verbatim>\<open>getPassInstrumentor()\<close>
  returns.
\<close>

definition AnalysisManager_getAnalysis ::
  "'a AnalysisT \<Rightarrow> PassInstrumentor option \<Rightarrow> World \<Rightarrow> 'a NestedAnalysisMap \<Rightarrow>
     'a reference \<times> World \<times> 'a NestedAnalysisMap" where
  "AnalysisManager_getAnalysis T pi w impl =
     (case AnalysisMap_getAnalysis T pi w (analyses_map impl) of
        (r, w', m') \<Rightarrow> (r, w', NestedAnalysisMap (childAnalyses impl) m'))"

definition AnalysisManager_getCachedAnalysis ::
  "'a AnalysisT \<Rightarrow> 'a NestedAnalysisMap \<Rightarrow> 'a reference option" where
  "AnalysisManager_getCachedAnalysis T impl = getCachedAnalysis T (analyses_map impl)"

text \<open>
  \<^verbatim>\<open>getCachedChildAnalysis\<close> asserts \<^verbatim>\<open>op->getParentOp() == impl->getOperation()\<close>.
  \<^verbatim>\<open>Operation::getParentOp\<close> belongs to the IR and is a parameter here; a failed
  assertion is the error.
\<close>

datatype error = AssertionFailed

definition AnalysisManager_getCachedChildAnalysis ::
  "(Operation \<Rightarrow> Operation option) \<Rightarrow> 'a AnalysisT \<Rightarrow> Operation \<Rightarrow> 'a NestedAnalysisMap \<Rightarrow>
     error + 'a reference option" where
  "AnalysisManager_getCachedChildAnalysis getParentOp T opr impl =
     (if getParentOp opr \<noteq> Some (NestedAnalysisMap_getOperation impl) then Inl AssertionFailed
      else case map_of (childAnalyses impl) opr of
             None \<Rightarrow> Inr None
           | Some child \<Rightarrow> Inr (getCachedAnalysis T (analyses_map child)))"

definition AnalysisManager_invalidate ::
  "PreservedAnalyses \<Rightarrow> 'a NestedAnalysisMap \<Rightarrow> 'a NestedAnalysisMap" where
  "AnalysisManager_invalidate pa impl = NestedAnalysisMap_invalidate pa impl"

definition AnalysisManager_clear :: "'a NestedAnalysisMap \<Rightarrow> 'a NestedAnalysisMap" where
  "AnalysisManager_clear impl = NestedAnalysisMap [] (AnalysisMap_clear (analyses_map impl))"

text \<open>
  The pointer \<^verbatim>\<open>impl\<close> of a manager, as the chain of child operations that leads
  from the top-level map to the map it points to. \<open>implNode\<close> reads through the
  pointer; \<open>implUpdate\<close> is the write through it, which leaves the tree as it is when
  the chain leads nowhere.
\<close>

type_synonym AnalysisManager = "Operation list"

fun implNode :: "AnalysisManager \<Rightarrow> 'a NestedAnalysisMap \<Rightarrow> 'a NestedAnalysisMap option" where
  "implNode [] n = Some n"
| "implNode (opr # am) n =
     (case map_of (childAnalyses n) opr of
        None \<Rightarrow> None
      | Some child \<Rightarrow> implNode am child)"

fun implUpdate ::
  "AnalysisManager \<Rightarrow> ('a NestedAnalysisMap \<Rightarrow> 'a NestedAnalysisMap) \<Rightarrow>
     'a NestedAnalysisMap \<Rightarrow> 'a NestedAnalysisMap" where
  "implUpdate [] f n = f n"
| "implUpdate (opr # am) f n =
     (case map_of (childAnalyses n) opr of
        None \<Rightarrow> n
      | Some child \<Rightarrow>
          NestedAnalysisMap (AList.update opr (implUpdate am f child) (childAnalyses n))
            (analyses_map n))"

text \<open>
  The calls a pass can make on a manager, for statements about every sequence of calls
  made through the managers of one tree. The two cached queries are \<^verbatim>\<open>const\<close>
  members that return their answer only: they leave the map and the surroundings as
  they are. A call through a manager whose map no longer exists is outside the
  contract of the class and has no effect in the model.
\<close>

datatype 'a ManagerCall =
    CallGetAnalysis "'a AnalysisT"
  | CallGetCachedAnalysis "'a AnalysisT"
  | CallGetCachedChildAnalysis "'a AnalysisT" Operation
  | CallInvalidate PreservedAnalyses
  | CallClear

fun managerCall ::
  "PassInstrumentor option \<Rightarrow> 'a ManagerCall \<Rightarrow> World \<times> 'a NestedAnalysisMap \<Rightarrow>
     World \<times> 'a NestedAnalysisMap" where
  "managerCall pi (CallGetAnalysis T) (w, impl) = snd (AnalysisManager_getAnalysis T pi w impl)"
| "managerCall pi (CallGetCachedAnalysis T) (w, impl) = (w, impl)"
| "managerCall pi (CallGetCachedChildAnalysis T opr) (w, impl) = (w, impl)"
| "managerCall pi (CallInvalidate pa) (w, impl) = (w, AnalysisManager_invalidate pa impl)"
| "managerCall pi CallClear (w, impl) = (w, AnalysisManager_clear impl)"

fun treeCall ::
  "PassInstrumentor option \<Rightarrow> AnalysisManager \<times> 'a ManagerCall \<Rightarrow>
     World \<times> 'a NestedAnalysisMap \<Rightarrow> World \<times> 'a NestedAnalysisMap" where
  "treeCall pi (am, c) (w, root) =
     (case implNode am root of
        None \<Rightarrow> (w, root)
      | Some impl \<Rightarrow>
          (case managerCall pi c (w, impl) of
             (w', impl') \<Rightarrow> (w', implUpdate am (\<lambda>_. impl') root)))"

fun treeCalls ::
  "PassInstrumentor option \<Rightarrow> (AnalysisManager \<times> 'a ManagerCall) list \<Rightarrow>
     World \<times> 'a NestedAnalysisMap \<Rightarrow> World \<times> 'a NestedAnalysisMap" where
  "treeCalls pi [] s = s"
| "treeCalls pi (c # cs) s = treeCalls pi cs (treeCall pi c s)"

fun evicts :: "'a ManagerCall \<Rightarrow> bool" where
  "evicts (CallInvalidate pa) = True"
| "evicts CallClear = True"
| "evicts c = False"

subsection \<open>ModuleAnalysisManager\<close>

text \<open>
  The owner of the top-level map, constructed from the operation and the optional
  instrumentor; its conversion to \<^verbatim>\<open>AnalysisManager\<close> is the manager of the root.
\<close>

record 'a ModuleAnalysisManager =
  rootAnalyses :: "'a NestedAnalysisMap"
  passInstrumentor :: "PassInstrumentor option"

definition ModuleAnalysisManager_new ::
  "Operation \<Rightarrow> PassInstrumentor option \<Rightarrow> 'a ModuleAnalysisManager" where
  "ModuleAnalysisManager_new opr pi =
     \<lparr>rootAnalyses = NestedAnalysisMap_new opr, passInstrumentor = pi\<rparr>"

definition rootManager :: AnalysisManager where
  "rootManager = []"

subsection \<open>Analysis classes used as concrete inputs\<close>

text \<open>
  Two classes over analysis objects of type \<^typ>\<open>nat\<close>: \<open>Liveness\<close> has no
  \<^verbatim>\<open>isInvalidated\<close> member; \<open>DominatorTree\<close> has one, which keeps the analysis
  when everything or the analysis with id 1 is preserved.
\<close>

definition Liveness :: "nat AnalysisT" where
  "Liveness =
     \<lparr>typeID = AnalysisTypeID 0, typeName = ''mlir::Liveness'', construct = Suc,
      isInvalidatedMember = None\<rparr>"

definition DominatorTree :: "nat AnalysisT" where
  "DominatorTree =
     \<lparr>typeID = AnalysisTypeID 2, typeName = ''(anonymous namespace)::DominatorTree'',
      construct = Suc,
      isInvalidatedMember =
        Some (\<lambda>a pa. \<not> isAll pa \<and> \<not> isPreserved pa (AnalysisTypeID 1))\<rparr>"

text \<open>
  Caches and a tree for the concrete checks: \<open>livenessCell opr\<close> is the cache of
  operation \<open>opr\<close> holding one \<open>Liveness\<close>; \<open>exampleTree\<close> is the top-level map of
  operation 0 with the maps of its children 1 and 2, and of 3 inside 1.
\<close>

definition livenessCell :: "nat \<Rightarrow> nat AnalysisMap" where
  "livenessCell opr =
     \<lparr>ir = opr, analyses = [(AnalysisTypeID 0, AnalysisModel Liveness opr (Suc opr))]\<rparr>"

definition twoCells :: "nat AnalysisMap" where
  "twoCells =
     \<lparr>ir = 7, analyses =
        [(AnalysisTypeID 0, AnalysisModel Liveness 0 8),
         (AnalysisTypeID 2, AnalysisModel DominatorTree 1 8)]\<rparr>"

definition exampleTree :: "nat NestedAnalysisMap" where
  "exampleTree =
     NestedAnalysisMap
       [(1, NestedAnalysisMap [(3, NestedAnalysisMap [] (livenessCell 3))] (livenessCell 1)),
        (2, NestedAnalysisMap [] (livenessCell 2))]
       (livenessCell 0)"

section \<open>Properties of PreservedAnalyses\<close>

lemma preservedIDs_preserveCall:
  "preservedIDs (preserveCall c pa) =
     insert (case c of Preserve tid \<Rightarrow> tid | PreserveAll \<Rightarrow> AllAnalysesType) (preservedIDs pa)"
  by (cases c) (simp_all add: preserve_def preserveAll_def)

lemma preservedIDs_preserveCalls:
  "preservedIDs (preserveCalls cs pa) =
     preservedIDs pa \<union> (\<lambda>c. case c of Preserve tid \<Rightarrow> tid | PreserveAll \<Rightarrow> AllAnalysesType) ` set cs"
  by (induction cs arbitrary: pa) (auto simp: preservedIDs_preserveCall)

text \<open>
  C9. \<^verbatim>\<open>isNone()\<close> is true exactly when neither \<^verbatim>\<open>preserve(id)\<close> nor
  \<^verbatim>\<open>preserveAll()\<close> has been called on the set since its construction: it is true of
  a freshly constructed set, false after any \<^verbatim>\<open>preserve(id)\<close> and false after any
  \<^verbatim>\<open>preserveAll()\<close>, whatever the set held before.
\<close>

theorem isNone_iff_untouched:
  "isNone (preserveCalls cs PreservedAnalyses_new) = (cs = [])
   \<and> isNone PreservedAnalyses_new
   \<and> \<not> isNone (preserve tid pa)
   \<and> \<not> isNone (preserveAll pa)"
proof -
  have "isNone (preserveCalls cs PreservedAnalyses_new) = (cs = [])"
    by (cases cs)
      (simp_all add: isNone_def preservedIDs_preserveCalls preservedIDs_preserveCall
        PreservedAnalyses_new_def)
  moreover have "isNone PreservedAnalyses_new"
    by (simp add: isNone_def PreservedAnalyses_new_def)
  moreover have "\<not> isNone (preserve tid pa)" "\<not> isNone (preserveAll pa)"
    by (simp_all add: isNone_def preserve_def preserveAll_def)
  ultimately show ?thesis by blast
qed

text \<open>
  C2 as stated fails: \<^verbatim>\<open>isPreserved(id)\<close> only counts \<open>id\<close> in \<open>preservedIDs\<close>, so
  after \<^verbatim>\<open>preserveAll()\<close> on a fresh set an analysis id is still reported as not
  preserved.
\<close>

theorem isPreserved_preserveAll_counterexample:
  "\<not> isPreserved (preserveAll PreservedAnalyses_new) (AnalysisTypeID 0)"
  by (simp add: isPreserved_def preserveAll_def PreservedAnalyses_new_def)

text \<open>
  C2, amended. \<^verbatim>\<open>isPreserved(id)\<close> is a plain membership test on the stored ids:
  after any history of calls on a fresh set it is true exactly when \<^verbatim>\<open>preserve(id)\<close>
  was called for this very id, or \<open>id\<close> is the identity of \<^verbatim>\<open>AllAnalysesType\<close> and
  \<^verbatim>\<open>preserveAll()\<close> was called. A call of \<^verbatim>\<open>preserveAll()\<close> makes \<^verbatim>\<open>isAll()\<close>
  true and changes \<^verbatim>\<open>isPreserved\<close> for no analysis id.
\<close>

theorem isPreserved_iff_inserted:
  "isPreserved (preserveCalls cs PreservedAnalyses_new) tid =
     (Preserve tid \<in> set cs \<or> (tid = AllAnalysesType \<and> PreserveAll \<in> set cs))
   \<and> isAll (preserveAll pa)
   \<and> isPreserved (preserveAll pa) (AnalysisTypeID n) = isPreserved pa (AnalysisTypeID n)"
proof -
  have "isPreserved (preserveCalls cs PreservedAnalyses_new) tid =
     (Preserve tid \<in> set cs \<or> (tid = AllAnalysesType \<and> PreserveAll \<in> set cs))"
  proof -
    let ?f = "\<lambda>c. case c of Preserve t \<Rightarrow> t | PreserveAll \<Rightarrow> AllAnalysesType"
    have "tid \<in> ?f ` set cs \<longleftrightarrow>
        Preserve tid \<in> set cs \<or> (tid = AllAnalysesType \<and> PreserveAll \<in> set cs)"
    proof
      assume "tid \<in> ?f ` set cs"
      then obtain c where c: "c \<in> set cs" "tid = ?f c" by blast
      then show "Preserve tid \<in> set cs \<or> (tid = AllAnalysesType \<and> PreserveAll \<in> set cs)"
        by (auto split: PreserveCall.splits)
    next
      assume "Preserve tid \<in> set cs \<or> (tid = AllAnalysesType \<and> PreserveAll \<in> set cs)"
      then show "tid \<in> ?f ` set cs"
      proof
        assume "Preserve tid \<in> set cs"
        then show ?thesis by (intro image_eqI [where x = "Preserve tid"]) simp_all
      next
        assume "tid = AllAnalysesType \<and> PreserveAll \<in> set cs"
        then show ?thesis by (intro image_eqI [where x = PreserveAll]) simp_all
      qed
    qed
    then show ?thesis
      by (simp add: isPreserved_def preservedIDs_preserveCalls PreservedAnalyses_new_def)
  qed
  moreover have "isAll (preserveAll pa)"
    by (simp add: isAll_def preserveAll_def)
  moreover have "isPreserved (preserveAll pa) (AnalysisTypeID n) = isPreserved pa (AnalysisTypeID n)"
    by (simp add: isPreserved_def preserveAll_def)
  ultimately show ?thesis by blast
qed

section \<open>The per-node cache: AnalysisMap\<close>

subsection \<open>The loop of invalidate\<close>

lemma invalidate_loop_filter:
  "invalidate_loop pa xs = filter (\<lambda>e. \<not> isInvalidated (snd e) pa) xs"
  by (induction xs) simp_all

lemma invalidate_loop_subset: "set (invalidate_loop pa xs) \<subseteq> set xs"
  by (induction xs) auto

lemma invalidate_loop_absent:
  assumes "k \<notin> fst ` set xs"
  shows "map_of (invalidate_loop pa xs) k = None"
proof -
  from invalidate_loop_subset [of pa xs] assms
  have "k \<notin> fst ` set (invalidate_loop pa xs)" by blast
  then show ?thesis by (simp add: map_of_eq_None_iff)
qed

text \<open>What \<^verbatim>\<open>find\<close> answers after the loop, entry by entry.\<close>

lemma map_of_invalidate_loop:
  assumes "distinct (map fst xs)"
  shows "map_of (invalidate_loop pa xs) k =
     (case map_of xs k of
        None \<Rightarrow> None
      | Some c \<Rightarrow> if isInvalidated c pa then None else Some c)"
  using assms
proof (induction xs)
  case Nil
  then show ?case by simp
next
  case (Cons curIt it)
  from Cons.prems have fresh: "fst curIt \<notin> fst ` set it" and "distinct (map fst it)"
    by simp_all
  note IH = Cons.IH [OF \<open>distinct (map fst it)\<close>]
  show ?case
  proof (cases "k = fst curIt")
    case True
    with fresh have "map_of (invalidate_loop pa it) k = None"
      by (simp add: invalidate_loop_absent)
    with True show ?thesis by simp
  next
    case False
    with IH show ?thesis by simp
  qed
qed

lemma map_of_invalidate:
  assumes "oneCellPerType m"
  shows "map_of (analyses (AnalysisMap_invalidate pa m)) k =
     (case map_of (analyses m) k of
        None \<Rightarrow> None
      | Some c \<Rightarrow> if isInvalidated c pa then None else Some c)"
  using assms
  by (simp add: AnalysisMap_invalidate_def oneCellPerType_def map_of_invalidate_loop)

lemma respectsIsAll_kept: "respectsIsAll c \<Longrightarrow> isAll pa \<Longrightarrow> \<not> isInvalidated c pa"
  by (auto simp: respectsIsAll_def isInvalidated_def analysis_impl_isInvalidated_def)

lemma default_isInvalidated:
  "isInvalidatedMember (modelT c) = None \<Longrightarrow>
   isInvalidated c pa = (\<not> isPreserved pa (typeID (modelT c)))"
  by (simp add: isInvalidated_def analysis_impl_isInvalidated_def)

text \<open>
  C1 as stated fails for the default predicate: the cache of operation 7 holds a
  \<open>Liveness\<close>, whose class has no \<^verbatim>\<open>isInvalidated\<close> member, and
  \<^verbatim>\<open>AnalysisMap::invalidate\<close> with a set on which only \<^verbatim>\<open>preserveAll()\<close> was
  called evicts it.
\<close>

theorem invalidate_preserveAll_counterexample:
  "isAll (preserveAll PreservedAnalyses_new)
   \<and> isInvalidatedMember Liveness = None
   \<and> getCachedAnalysis Liveness (livenessCell 7) = Some (7, 8)
   \<and> getCachedAnalysis Liveness
        (AnalysisMap_invalidate (preserveAll PreservedAnalyses_new) (livenessCell 7)) = None"
  by (simp add: isAll_def preserveAll_def PreservedAnalyses_new_def Liveness_def livenessCell_def
      getCachedAnalysis_def AnalysisMap_invalidate_def isInvalidated_def
      analysis_impl_isInvalidated_def isPreserved_def analysisRef_def)

text \<open>
  C1, amended. For every per-node cache state and every set on which
  \<^verbatim>\<open>preserveAll()\<close> has been called, \<^verbatim>\<open>AnalysisMap::invalidate(set)\<close> keeps every
  cached analysis whose custom predicate respects \<^verbatim>\<open>isAll()\<close>; an analysis using
  the default predicate stays cached exactly when its own id is in the set as well, and
  is evicted otherwise; and when no cell asks for invalidation the cache is left as it
  is.
\<close>

theorem invalidate_preserveAll_amended:
  assumes "isAll pa" and "oneCellPerType m" and "map_of (analyses m) k = Some c"
  shows "(respectsIsAll c \<longrightarrow> map_of (analyses (AnalysisMap_invalidate pa m)) k = Some c)
    \<and> (isInvalidatedMember (modelT c) = None \<longrightarrow>
         map_of (analyses (AnalysisMap_invalidate pa m)) k =
           (if isPreserved pa (typeID (modelT c)) then Some c else None))
    \<and> ((\<forall>e \<in> set (analyses m). \<not> isInvalidated (snd e) pa) \<longrightarrow>
         AnalysisMap_invalidate pa m = m)"
proof (intro conjI impI)
  assume "respectsIsAll c"
  with assms show "map_of (analyses (AnalysisMap_invalidate pa m)) k = Some c"
    by (simp add: map_of_invalidate respectsIsAll_kept)
next
  assume "isInvalidatedMember (modelT c) = None"
  with assms show "map_of (analyses (AnalysisMap_invalidate pa m)) k =
           (if isPreserved pa (typeID (modelT c)) then Some c else None)"
    by (simp add: map_of_invalidate default_isInvalidated)
next
  assume "\<forall>e \<in> set (analyses m). \<not> isInvalidated (snd e) pa"
  then have "filter (\<lambda>e. \<not> isInvalidated (snd e) pa) (analyses m) = analyses m"
    by (simp add: filter_id_conv)
  then show "AnalysisMap_invalidate pa m = m"
    by (simp add: AnalysisMap_invalidate_def invalidate_loop_filter)
qed

theorem invalidate_preserveAll_amended_witness:
  "isAll (preserve (AnalysisTypeID 0) (preserveAll PreservedAnalyses_new))
   \<and> oneCellPerType twoCells
   \<and> map_of (analyses twoCells) (AnalysisTypeID 2) = Some (AnalysisModel DominatorTree 1 8)
   \<and> respectsIsAll (AnalysisModel DominatorTree 1 8)
   \<and> map_of (analyses (AnalysisMap_invalidate
          (preserve (AnalysisTypeID 0) (preserveAll PreservedAnalyses_new)) twoCells))
        (AnalysisTypeID 2) = Some (AnalysisModel DominatorTree 1 8)
   \<and> map_of (analyses twoCells) (AnalysisTypeID 0) = Some (AnalysisModel Liveness 0 8)
   \<and> isInvalidatedMember Liveness = None
   \<and> isPreserved (preserve (AnalysisTypeID 0) (preserveAll PreservedAnalyses_new)) (AnalysisTypeID 0)
   \<and> map_of (analyses (AnalysisMap_invalidate
          (preserve (AnalysisTypeID 0) (preserveAll PreservedAnalyses_new)) twoCells))
        (AnalysisTypeID 0) = Some (AnalysisModel Liveness 0 8)
   \<and> AnalysisMap_invalidate
        (preserve (AnalysisTypeID 0) (preserveAll PreservedAnalyses_new)) twoCells = twoCells"
proof -
  let ?pa = "preserve (AnalysisTypeID 0) (preserveAll PreservedAnalyses_new)"
  let ?d = "AnalysisModel DominatorTree 1 8"
  let ?l = "AnalysisModel Liveness 0 8"
  have a: "isAll ?pa"
    by (simp add: isAll_def preserve_def preserveAll_def)
  have b: "oneCellPerType twoCells"
    by (simp add: oneCellPerType_def twoCells_def)
  have d: "map_of (analyses twoCells) (AnalysisTypeID 2) = Some ?d"
    and l: "map_of (analyses twoCells) (AnalysisTypeID 0) = Some ?l"
    by (simp_all add: twoCells_def)
  have rd: "respectsIsAll ?d"
    by (simp add: respectsIsAll_def DominatorTree_def)
  have dl: "isInvalidatedMember (modelT ?l) = None" "isInvalidatedMember Liveness = None"
    by (simp_all add: Liveness_def)
  have pl: "isPreserved ?pa (typeID (modelT ?l))" "isPreserved ?pa (AnalysisTypeID 0)"
    by (simp_all add: isPreserved_def preserve_def Liveness_def)
  have all: "\<forall>e \<in> set (analyses twoCells). \<not> isInvalidated (snd e) ?pa"
    by (simp add: twoCells_def isInvalidated_def analysis_impl_isInvalidated_def Liveness_def
        DominatorTree_def isPreserved_def preserve_def preserveAll_def isAll_def)
  from invalidate_preserveAll_amended [OF a b d] rd all
  have "map_of (analyses (AnalysisMap_invalidate ?pa twoCells)) (AnalysisTypeID 2) = Some ?d"
    and "AnalysisMap_invalidate ?pa twoCells = twoCells" by blast+
  moreover from invalidate_preserveAll_amended [OF a b l] dl pl
  have "map_of (analyses (AnalysisMap_invalidate ?pa twoCells)) (AnalysisTypeID 0) = Some ?l"
    by simp
  ultimately show ?thesis using a b d l rd dl pl by blast
qed

text \<open>
  C5. An analysis \<open>T\<close> without a custom predicate is cached (the cell stored for
  \<open>T\<close>'s id is a model of \<open>T\<close>). After \<^verbatim>\<open>invalidate(set)\<close>,
  \<^verbatim>\<open>getCachedAnalysis<T>()\<close> is absent when \<^verbatim>\<open>set.isPreserved\<close> of \<open>T\<close>'s id is
  false, and is the reference to the same object as before, unchanged, when it is
  true.
\<close>

theorem default_invalidation:
  assumes "isInvalidatedMember T = None" and "oneCellPerType m"
    and "map_of (analyses m) (typeID T) = Some c" and "modelT c = T"
  shows "getCachedAnalysis T m = Some (analysisRef c)
    \<and> getCachedAnalysis T (AnalysisMap_invalidate pa m) =
        (if isPreserved pa (typeID T) then Some (analysisRef c) else None)"
  using assms
  by (simp add: getCachedAnalysis_def map_of_invalidate default_isInvalidated)

theorem default_invalidation_witness:
  "isInvalidatedMember Liveness = None
   \<and> oneCellPerType (livenessCell 7)
   \<and> map_of (analyses (livenessCell 7)) (typeID Liveness) = Some (AnalysisModel Liveness 7 8)
   \<and> getCachedAnalysis Liveness (livenessCell 7) = Some (7, 8)
   \<and> \<not> isPreserved PreservedAnalyses_new (typeID Liveness)
   \<and> getCachedAnalysis Liveness (AnalysisMap_invalidate PreservedAnalyses_new (livenessCell 7)) = None
   \<and> isPreserved (preserve (typeID Liveness) PreservedAnalyses_new) (typeID Liveness)
   \<and> getCachedAnalysis Liveness
        (AnalysisMap_invalidate (preserve (typeID Liveness) PreservedAnalyses_new) (livenessCell 7))
       = Some (7, 8)"
proof -
  let ?c = "AnalysisModel Liveness 7 8"
  have a: "isInvalidatedMember Liveness = None" by (simp add: Liveness_def)
  have b: "oneCellPerType (livenessCell 7)" by (simp add: oneCellPerType_def livenessCell_def)
  have c: "map_of (analyses (livenessCell 7)) (typeID Liveness) = Some ?c"
    by (simp add: livenessCell_def Liveness_def)
  have d: "modelT ?c = Liveness" by simp
  have p: "\<not> isPreserved PreservedAnalyses_new (typeID Liveness)"
    "isPreserved (preserve (typeID Liveness) PreservedAnalyses_new) (typeID Liveness)"
    by (simp_all add: isPreserved_def PreservedAnalyses_new_def preserve_def)
  from default_invalidation [OF a b c d, of PreservedAnalyses_new]
       default_invalidation [OF a b c d, of "preserve (typeID Liveness) PreservedAnalyses_new"]
       a b c p
  show ?thesis by (simp add: analysisRef_def)
qed

subsection \<open>getAnalysisImpl: hit and miss\<close>

lemma getAnalysisImpl_hit:
  "map_of (analyses m) (typeID T) = Some c \<Longrightarrow>
   getAnalysisImpl T pi opr w m = (analysisRef c, w, m)"
  by (simp add: getAnalysisImpl_def)

lemma getAnalysisImpl_miss:
  "map_of (analyses m) (typeID T) = None \<Longrightarrow>
   getAnalysisImpl T (Some p) opr w m =
     ((nextInstance w, construct T opr),
      w\<lparr>events := events w @
          [RunBeforeAnalysis p (getAnalysisName T) (typeID T) (ir m),
           Constructed (typeID T) opr (nextInstance w),
           RunAfterAnalysis p (getAnalysisName T) (typeID T) (ir m)],
        nextInstance := Suc (nextInstance w)\<rparr>,
      m\<lparr>analyses := analyses m @
          [(typeID T, AnalysisModel T (nextInstance w) (construct T opr))]\<rparr>)"
  by (simp add: getAnalysisImpl_def make_unique_AnalysisModel_def runBeforeAnalysis_def
      runAfterAnalysis_def analysisRef_def Let_def)

text \<open>The reference returned and the cache afterwards, with or without instrumentor.\<close>

lemma getAnalysisImpl_result:
  "fst (getAnalysisImpl T pi opr w m) =
     (case map_of (analyses m) (typeID T) of
        Some c \<Rightarrow> analysisRef c
      | None \<Rightarrow> (nextInstance w, construct T opr))"
  "snd (snd (getAnalysisImpl T pi opr w m)) =
     (case map_of (analyses m) (typeID T) of
        Some c \<Rightarrow> m
      | None \<Rightarrow> m\<lparr>analyses := analyses m @
          [(typeID T, AnalysisModel T (nextInstance w) (construct T opr))]\<rparr>)"
  by (cases pi; simp add: getAnalysisImpl_def Let_def make_unique_AnalysisModel_def
      runBeforeAnalysis_def runAfterAnalysis_def analysisRef_def split: option.splits)+

lemma getAnalysisImpl_caches:
  assumes "getAnalysisImpl T pi opr w m = (r, w', m')"
  shows "\<exists>cell. map_of (analyses m') (typeID T) = Some cell \<and> r = analysisRef cell"
proof -
  from assms have r: "r = fst (getAnalysisImpl T pi opr w m)"
    and m': "m' = snd (snd (getAnalysisImpl T pi opr w m))" by simp_all
  show ?thesis
    unfolding r m' getAnalysisImpl_result
    by (cases "map_of (analyses m) (typeID T)") (simp_all add: analysisRef_def map_add_def)
qed

lemma getAnalysisImpl_keeps:
  assumes "map_of (analyses m) tid = Some cell"
  shows "map_of (analyses (snd (snd (getAnalysisImpl U pi opr w m)))) tid = Some cell"
  unfolding getAnalysisImpl_result using assms
  by (cases "map_of (analyses m) (typeID U)") (simp_all add: map_add_def)

subsection \<open>The events of a sequence of calls\<close>

lemma constructions_append:
  "constructions (es1 @ es2) = constructions es1 + constructions es2"
  by (induction es1 rule: constructions.induct) simp_all

lemma mapCall_events:
  "\<exists>es. events (fst (mapCall (Some p) c (w, m))) = events w @ es
      \<and> (\<forall>rest. notifiedAround p (es @ rest) = notifiedAround p rest)
      \<and> nextInstance (fst (mapCall (Some p) c (w, m))) = nextInstance w + constructions es
      \<and> length es = 3 * constructions es"
proof (cases c)
  case (GetAnalysis T)
  show ?thesis
  proof (cases "map_of (analyses m) (typeID T)")
    case None
    with GetAnalysis show ?thesis
      by (simp add: AnalysisMap_getAnalysis_def getAnalysisImpl_miss)
  next
    case (Some c')
    with GetAnalysis show ?thesis
      by (simp add: AnalysisMap_getAnalysis_def getAnalysisImpl_hit)
  qed
qed simp_all

lemma mapCalls_events:
  "\<exists>es. events (fst (mapCalls (Some p) cs (w, m))) = events w @ es
      \<and> notifiedAround p es
      \<and> nextInstance (fst (mapCalls (Some p) cs (w, m))) = nextInstance w + constructions es
      \<and> length es = 3 * constructions es"
proof (induction cs arbitrary: w m)
  case Nil
  then show ?case by simp
next
  case (Cons c cs)
  obtain w1 m1 where s1: "mapCall (Some p) c (w, m) = (w1, m1)"
    by (cases "mapCall (Some p) c (w, m)")
  from mapCall_events [of p c w m] s1 obtain es1 where
    e1: "events w1 = events w @ es1"
      "\<And>rest. notifiedAround p (es1 @ rest) = notifiedAround p rest"
      "nextInstance w1 = nextInstance w + constructions es1"
      "length es1 = 3 * constructions es1"
    by auto
  from Cons.IH [of w1 m1] obtain es2 where
    e2: "events (fst (mapCalls (Some p) cs (w1, m1))) = events w1 @ es2"
      "notifiedAround p es2"
      "nextInstance (fst (mapCalls (Some p) cs (w1, m1))) = nextInstance w1 + constructions es2"
      "length es2 = 3 * constructions es2"
    by auto
  note c12 = constructions_append [of es1 es2]
  show ?case
    apply (rule exI [where x = "es1 @ es2"])
    using s1 e1 e2 c12 by simp
qed

text \<open>
  C6. With an instrumentor \<open>p\<close>: a \<^verbatim>\<open>getAnalysis\<close> that misses the cache records
  the notification before, the construction and the notification after, in that order
  and nothing else, and one that hits the cache records nothing;
  \<^verbatim>\<open>getCachedAnalysis\<close> changes neither the cache nor the record; and over every
  sequence of calls on a cache (queries, invalidations and clears included) the events
  added are groups of before, construction, after, so that there are exactly two
  notifications around every object constructed.
\<close>

theorem instrumentation_once_per_construction:
  "events (fst (snd (AnalysisMap_getAnalysis T (Some p) w m))) =
     events w @
       (if getCachedAnalysis T m = None
        then [RunBeforeAnalysis p (getAnalysisName T) (typeID T) (ir m),
              Constructed (typeID T) (ir m) (nextInstance w),
              RunAfterAnalysis p (getAnalysisName T) (typeID T) (ir m)]
        else [])
   \<and> mapCall (Some p) (GetCachedAnalysis T) (w, m) = (w, m)
   \<and> (let w' = fst (mapCalls (Some p) cs (w, m));
           es = drop (length (events w)) (events w')
       in events w' = events w @ es \<and> notifiedAround p es
          \<and> length es = 3 * constructions es
          \<and> nextInstance w' = nextInstance w + constructions es)"
proof (intro conjI)
  show "events (fst (snd (AnalysisMap_getAnalysis T (Some p) w m))) =
     events w @
       (if getCachedAnalysis T m = None
        then [RunBeforeAnalysis p (getAnalysisName T) (typeID T) (ir m),
              Constructed (typeID T) (ir m) (nextInstance w),
              RunAfterAnalysis p (getAnalysisName T) (typeID T) (ir m)]
        else [])"
    by (cases "map_of (analyses m) (typeID T)")
      (simp_all add: AnalysisMap_getAnalysis_def getAnalysisImpl_miss getAnalysisImpl_hit
        getCachedAnalysis_def)
  show "mapCall (Some p) (GetCachedAnalysis T) (w, m) = (w, m)" by simp
  from mapCalls_events [of p cs w m] obtain es where
    es: "events (fst (mapCalls (Some p) cs (w, m))) = events w @ es" "notifiedAround p es"
      "nextInstance (fst (mapCalls (Some p) cs (w, m))) = nextInstance w + constructions es"
      "length es = 3 * constructions es"
    by blast
  then show "let w' = fst (mapCalls (Some p) cs (w, m));
           es = drop (length (events w)) (events w')
       in events w' = events w @ es \<and> notifiedAround p es
          \<and> length es = 3 * constructions es
          \<and> nextInstance w' = nextInstance w + constructions es"
    by (simp add: Let_def)
qed

subsection \<open>One cell per analysis type\<close>

lemma oneCellPerType_getAnalysisImpl:
  assumes "oneCellPerType m"
  shows "oneCellPerType (snd (snd (getAnalysisImpl U pi opr w m)))"
proof (cases "map_of (analyses m) (typeID U)")
  case None
  then have "typeID U \<notin> fst ` set (analyses m)" by (simp add: map_of_eq_None_iff)
  with assms None show ?thesis
    unfolding getAnalysisImpl_result by (simp add: oneCellPerType_def)
next
  case (Some c)
  with assms show ?thesis unfolding getAnalysisImpl_result by simp
qed

lemma oneCellPerType_mapCall:
  "oneCellPerType (snd s) \<Longrightarrow> oneCellPerType (snd (mapCall pi c s))"
proof (cases s)
  case (Pair w m)
  assume "oneCellPerType (snd s)"
  with Pair have m: "oneCellPerType m" by simp
  show ?thesis
  proof (cases c)
    case (GetAnalysis T)
    with Pair m show ?thesis
      by (simp add: AnalysisMap_getAnalysis_def oneCellPerType_getAnalysisImpl)
  next
    case (GetCachedAnalysis T)
    with Pair m show ?thesis by simp
  next
    case (Invalidate pa)
    with Pair m show ?thesis
      by (simp add: AnalysisMap_invalidate_def invalidate_loop_filter oneCellPerType_def
          distinct_map_filter)
  next
    case Clear
    with Pair show ?thesis by (simp add: AnalysisMap_clear_def oneCellPerType_def)
  qed
qed

lemma oneCellPerType_mapCalls:
  "oneCellPerType (snd s) \<Longrightarrow> oneCellPerType (snd (mapCalls pi cs s))"
  by (induction cs arbitrary: s) (simp_all add: oneCellPerType_mapCall)

section \<open>The tree of caches: NestedAnalysisMap and AnalysisManager\<close>

subsection \<open>Reading and writing through impl\<close>

lemma implNode_append:
  "implNode (p @ r) root = (case implNode p root of None \<Rightarrow> None | Some n \<Rightarrow> implNode r n)"
  by (induction p arbitrary: root) (simp_all split: option.splits)

lemma implUpdate_dangling: "implNode p root = None \<Longrightarrow> implUpdate p f root = root"
proof (induction p arbitrary: root)
  case Nil
  then show ?case by simp
next
  case (Cons a p)
  show ?case
  proof (cases "map_of (childAnalyses root) a")
    case None
    then show ?thesis by simp
  next
    case (Some child)
    with Cons.prems have "implNode p child = None" by simp
    then have "implUpdate p f child = child" by (rule Cons.IH)
    with Some show ?thesis by (simp add: AList.update_triv)
  qed
qed

lemma implUpdate_same: "implNode p root = Some n \<Longrightarrow> implUpdate p (\<lambda>_. n) root = root"
proof (induction p arbitrary: root)
  case Nil
  then show ?case by simp
next
  case (Cons a p)
  show ?case
  proof (cases "map_of (childAnalyses root) a")
    case None
    then show ?thesis by simp
  next
    case (Some child)
    with Cons.prems have "implNode p child = Some n" by simp
    then have "implUpdate p (\<lambda>_. n) child = child" by (rule Cons.IH)
    with Some show ?thesis by (simp add: AList.update_triv)
  qed
qed

text \<open>The map written to, and the maps below it.\<close>

lemma implNode_implUpdate_below:
  "implNode (p @ r) (implUpdate p f root) =
     (case implNode p root of None \<Rightarrow> None | Some n \<Rightarrow> implNode r (f n))"
proof (induction p arbitrary: root)
  case Nil
  then show ?case by simp
next
  case (Cons a p)
  show ?case
  proof (cases "map_of (childAnalyses root) a")
    case None
    then show ?thesis by simp
  next
    case (Some child)
    with Cons.IH [of child] show ?thesis by (simp add: AList.update_conv')
  qed
qed

lemma implNode_implUpdate_at:
  "implNode p (implUpdate p f root) = map_option f (implNode p root)"
  using implNode_implUpdate_below [of p "[]" f root] by (simp split: option.splits)

text \<open>
  Every map that is not the one written to or below it keeps its own cache, whatever
  is written.
\<close>

lemma implUpdate_frame:
  "\<not> prefix p q \<Longrightarrow>
   map_option analyses_map (implNode q (implUpdate p f root)) =
   map_option analyses_map (implNode q root)"
proof (induction p arbitrary: q root)
  case Nil
  then show ?case by simp
next
  case (Cons a p)
  show ?case
  proof (cases "map_of (childAnalyses root) a")
    case None
    then show ?thesis by simp
  next
    case (Some child)
    show ?thesis
    proof (cases q)
      case Nil
      with Some show ?thesis by simp
    next
      case (Cons b q')
      show ?thesis
      proof (cases "b = a")
        case True
        with Cons.prems Cons have "\<not> prefix p q'" by simp
        then have "map_option analyses_map (implNode q' (implUpdate p f child)) =
            map_option analyses_map (implNode q' child)" by (rule Cons.IH)
        with Some Cons True show ?thesis by (simp add: AList.update_conv')
      next
        case False
        with Some Cons show ?thesis by (simp add: AList.update_conv')
      qed
    qed
  qed
qed

lemma implNode_childAnalyses:
  "childAnalyses n' = childAnalyses n \<Longrightarrow> r \<noteq> [] \<Longrightarrow> implNode r n' = implNode r n"
  by (cases r) simp_all

text \<open>A write that keeps \<^verbatim>\<open>childAnalyses\<close> also keeps the caches below.\<close>

lemma implUpdate_frame_own:
  assumes "q \<noteq> p"
    and "\<And>n. implNode p root = Some n \<Longrightarrow> childAnalyses (f n) = childAnalyses n"
  shows "map_option analyses_map (implNode q (implUpdate p f root)) =
         map_option analyses_map (implNode q root)"
proof (cases "prefix p q")
  case False
  then show ?thesis by (rule implUpdate_frame)
next
  case True
  then obtain r where q: "q = p @ r" by (auto elim: prefixE)
  with assms(1) have r: "r \<noteq> []" by auto
  show ?thesis
  proof (cases "implNode p root")
    case None
    then show ?thesis by (simp add: implUpdate_dangling)
  next
    case (Some n)
    then have "childAnalyses (f n) = childAnalyses n" by (rule assms(2))
    then have "implNode r (f n) = implNode r n" using r by (rule implNode_childAnalyses)
    moreover have "implNode q (implUpdate p f root) = implNode r (f n)"
      using Some q by (simp add: implNode_implUpdate_below)
    moreover have "implNode q root = implNode r n"
      using Some q by (simp add: implNode_append)
    ultimately show ?thesis by simp
  qed
qed

subsection \<open>invalidate and clear through a manager\<close>

text \<open>
  C3. \<^verbatim>\<open>invalidate\<close> through the manager \<open>am\<close> of a tree: every map of the tree
  other than the manager's own (parent, sibling or child, at any depth) exists
  afterwards exactly when it did before and has the same cache; the manager's own map
  has its cache swept and its \<^verbatim>\<open>childAnalyses\<close>, with everything in them, as
  before.
\<close>

theorem invalidate_only_own_cache:
  "(q \<noteq> am \<longrightarrow>
      map_option analyses_map (implNode q (implUpdate am (AnalysisManager_invalidate pa) root)) =
      map_option analyses_map (implNode q root))
   \<and> implNode am (implUpdate am (AnalysisManager_invalidate pa) root) =
       map_option
         (\<lambda>impl. NestedAnalysisMap (childAnalyses impl)
            (AnalysisMap_invalidate pa (analyses_map impl)))
         (implNode am root)"
proof -
  have "childAnalyses (AnalysisManager_invalidate pa n) = childAnalyses n"
    for n :: "'a NestedAnalysisMap"
    by (simp add: AnalysisManager_invalidate_def NestedAnalysisMap_invalidate_def)
  then have "q \<noteq> am \<Longrightarrow>
      map_option analyses_map (implNode q (implUpdate am (AnalysisManager_invalidate pa) root)) =
      map_option analyses_map (implNode q root)"
    by (intro implUpdate_frame_own) simp_all
  moreover have "implNode am (implUpdate am (AnalysisManager_invalidate pa) root) =
       map_option
         (\<lambda>impl. NestedAnalysisMap (childAnalyses impl)
            (AnalysisMap_invalidate pa (analyses_map impl)))
         (implNode am root)"
    by (simp add: implNode_implUpdate_at AnalysisManager_invalidate_def
        NestedAnalysisMap_invalidate_def cong: option.map_cong)
  ultimately show ?thesis by blast
qed

theorem invalidate_only_own_cache_witness:
  "[2] \<noteq> [1::nat]
   \<and> map_option analyses_map
        (implNode [2] (implUpdate [1] (AnalysisManager_invalidate PreservedAnalyses_new) exampleTree))
      = Some (livenessCell 2)
   \<and> [1, 3] \<noteq> [1::nat]
   \<and> map_option analyses_map
        (implNode [1, 3] (implUpdate [1] (AnalysisManager_invalidate PreservedAnalyses_new) exampleTree))
      = Some (livenessCell 3)
   \<and> map_option analyses_map
        (implNode [1] (implUpdate [1] (AnalysisManager_invalidate PreservedAnalyses_new) exampleTree))
      = Some \<lparr>ir = 1, analyses = []\<rparr>"
proof -
  let ?t = "implUpdate [1] (AnalysisManager_invalidate PreservedAnalyses_new) exampleTree"
  have s: "map_option analyses_map (implNode [2] exampleTree) = Some (livenessCell 2)"
    and c: "map_option analyses_map (implNode [1, 3] exampleTree) = Some (livenessCell 3)"
    and o: "implNode [1] exampleTree =
       Some (NestedAnalysisMap [(3, NestedAnalysisMap [] (livenessCell 3))] (livenessCell 1))"
    by (simp_all add: exampleTree_def)
  have i: "AnalysisMap_invalidate PreservedAnalyses_new (livenessCell 1) = \<lparr>ir = 1, analyses = []\<rparr>"
    by (simp add: AnalysisMap_invalidate_def livenessCell_def isInvalidated_def
        analysis_impl_isInvalidated_def Liveness_def isPreserved_def PreservedAnalyses_new_def)
  from invalidate_only_own_cache [of "[2]" "[1]" PreservedAnalyses_new exampleTree] s
  have "map_option analyses_map (implNode [2] ?t) = Some (livenessCell 2)" by simp
  moreover from invalidate_only_own_cache [of "[1, 3]" "[1]" PreservedAnalyses_new exampleTree] c
  have "map_option analyses_map (implNode [1, 3] ?t) = Some (livenessCell 3)" by simp
  moreover from invalidate_only_own_cache [of "[1, 3]" "[1]" PreservedAnalyses_new exampleTree] o i
  have "map_option analyses_map (implNode [1] ?t) = Some \<lparr>ir = 1, analyses = []\<rparr>" by simp
  ultimately show ?thesis by simp
qed

text \<open>
  C4 as stated fails: \<^verbatim>\<open>clear()\<close> also clears \<^verbatim>\<open>childAnalyses\<close>. The map of
  operation 1 holds the map of its child 3 with a cached \<open>Liveness\<close>; after
  \<^verbatim>\<open>clear()\<close> on the manager of 1 the map of 3 is gone, and the cached query for
  the child answers absent where it answered the analysis before.
\<close>

theorem clear_counterexample:
  "implNode [3] (NestedAnalysisMap [(3, NestedAnalysisMap [] (livenessCell 3))] (livenessCell 1))
     = Some (NestedAnalysisMap [] (livenessCell 3))
   \<and> implNode [3]
       (AnalysisManager_clear
          (NestedAnalysisMap [(3, NestedAnalysisMap [] (livenessCell 3))] (livenessCell 1)))
     = None
   \<and> AnalysisManager_getCachedChildAnalysis (map_of [(3, 1)]) Liveness 3
       (NestedAnalysisMap [(3, NestedAnalysisMap [] (livenessCell 3))] (livenessCell 1))
     = Inr (Some (3, 4))
   \<and> AnalysisManager_getCachedChildAnalysis (map_of [(3, 1)]) Liveness 3
       (AnalysisManager_clear
          (NestedAnalysisMap [(3, NestedAnalysisMap [] (livenessCell 3))] (livenessCell 1)))
     = Inr None"
  by (simp add: AnalysisManager_clear_def AnalysisManager_getCachedChildAnalysis_def
      NestedAnalysisMap_getOperation_def getOperation_def livenessCell_def AnalysisMap_clear_def
      getCachedAnalysis_def Liveness_def analysisRef_def)

text \<open>
  C4, amended. For every manager whose map exists, \<^verbatim>\<open>clear()\<close> unconditionally
  evicts all analysis cells of the manager's own map and removes all maps of its child
  operations with everything cached in and below them; every map that is not the
  manager's own or below it (its ancestors, its siblings and their descendants) keeps
  its cache.
\<close>

theorem clear_amended:
  assumes "implNode am root = Some impl"
  shows "implNode am (implUpdate am AnalysisManager_clear root) =
           Some (NestedAnalysisMap [] \<lparr>ir = ir (analyses_map impl), analyses = []\<rparr>)
    \<and> implNode (am @ opr # below) (implUpdate am AnalysisManager_clear root) = None
    \<and> (\<not> prefix am q \<longrightarrow>
         map_option analyses_map (implNode q (implUpdate am AnalysisManager_clear root)) =
         map_option analyses_map (implNode q root))"
proof (intro conjI impI)
  show "implNode am (implUpdate am AnalysisManager_clear root) =
           Some (NestedAnalysisMap [] \<lparr>ir = ir (analyses_map impl), analyses = []\<rparr>)"
    using assms
    by (simp add: implNode_implUpdate_at AnalysisManager_clear_def AnalysisMap_clear_def)
  show "implNode (am @ opr # below) (implUpdate am AnalysisManager_clear root) = None"
    using assms by (simp add: implNode_implUpdate_below AnalysisManager_clear_def)
  show "map_option analyses_map (implNode q (implUpdate am AnalysisManager_clear root)) =
         map_option analyses_map (implNode q root)" if "\<not> prefix am q"
    using that by (rule implUpdate_frame)
qed

theorem clear_amended_witness:
  "implNode [1] exampleTree =
     Some (NestedAnalysisMap [(3, NestedAnalysisMap [] (livenessCell 3))] (livenessCell 1))
   \<and> implNode [1] (implUpdate [1] AnalysisManager_clear exampleTree) =
       Some (NestedAnalysisMap [] \<lparr>ir = 1, analyses = []\<rparr>)
   \<and> implNode [1, 3] exampleTree = Some (NestedAnalysisMap [] (livenessCell 3))
   \<and> implNode [1, 3] (implUpdate [1] AnalysisManager_clear exampleTree) = None
   \<and> \<not> prefix [1] [2::nat]
   \<and> map_option analyses_map (implNode [2] (implUpdate [1] AnalysisManager_clear exampleTree)) =
       Some (livenessCell 2)
   \<and> \<not> prefix [1] ([]::nat list)
   \<and> map_option analyses_map (implNode [] (implUpdate [1] AnalysisManager_clear exampleTree)) =
       Some (livenessCell 0)"
proof -
  have o: "implNode [1] exampleTree =
     Some (NestedAnalysisMap [(3, NestedAnalysisMap [] (livenessCell 3))] (livenessCell 1))"
    and c: "implNode [1, 3] exampleTree = Some (NestedAnalysisMap [] (livenessCell 3))"
    and s: "map_option analyses_map (implNode [2] exampleTree) = Some (livenessCell 2)"
    and r: "map_option analyses_map (implNode [] exampleTree) = Some (livenessCell 0)"
    by (simp_all add: exampleTree_def)
  have i: "ir (livenessCell 1) = 1" by (simp add: livenessCell_def)
  from clear_amended [OF o, of 3 "[]" "[2]"] clear_amended [OF o, of 3 "[]" "[]"] o c s r i
  show ?thesis by simp
qed

subsection \<open>Queries through a manager\<close>

lemma AnalysisManager_getAnalysis_parts:
  "fst (AnalysisManager_getAnalysis T pi w impl) =
     fst (getAnalysisImpl T pi (ir (analyses_map impl)) w (analyses_map impl))"
  "fst (snd (AnalysisManager_getAnalysis T pi w impl)) =
     fst (snd (getAnalysisImpl T pi (ir (analyses_map impl)) w (analyses_map impl)))"
  "snd (snd (AnalysisManager_getAnalysis T pi w impl)) =
     NestedAnalysisMap (childAnalyses impl)
       (snd (snd (getAnalysisImpl T pi (ir (analyses_map impl)) w (analyses_map impl))))"
  by (simp_all add: AnalysisManager_getAnalysis_def AnalysisMap_getAnalysis_def
      split: prod.splits)

lemma treeCall_keeps_cell:
  assumes "\<not> evicts (snd c)" and "implNode am root = Some n"
    and "map_of (analyses (analyses_map n)) tid = Some cell"
  shows "\<exists>n'. implNode am (snd (treeCall pi c (w, root))) = Some n'
            \<and> map_of (analyses (analyses_map n')) tid = Some cell"
proof -
  obtain q call where c: "c = (q, call)" by (cases c)
  show ?thesis
  proof (cases "implNode q root")
    case None
    with c assms show ?thesis by simp
  next
    case (Some impl)
    show ?thesis
    proof (cases "\<exists>U. call = CallGetAnalysis U")
      case False
      with assms(1) c have "managerCall pi call (w, impl) = (w, impl)"
        by (cases call) simp_all
      with c Some assms show ?thesis by (simp add: implUpdate_same)
    next
      case True
      then obtain U where U: "call = CallGetAnalysis U" by blast
      obtain r w' m' where
        g: "getAnalysisImpl U pi (ir (analyses_map impl)) w (analyses_map impl) = (r, w', m')"
        by (cases "getAnalysisImpl U pi (ir (analyses_map impl)) w (analyses_map impl)")
      let ?impl' = "NestedAnalysisMap (childAnalyses impl) m'"
      have tc: "treeCall pi c (w, root) = (w', implUpdate q (\<lambda>_. ?impl') root)"
        using c U Some g
        by (simp add: AnalysisManager_getAnalysis_def AnalysisMap_getAnalysis_def)
      show ?thesis
      proof (cases "q = am")
        case True
        with Some assms(2) have "impl = n" by simp
        with assms(3) g
          getAnalysisImpl_keeps [of "analyses_map n" tid cell U pi "ir (analyses_map n)" w]
        have "map_of (analyses m') tid = Some cell" by simp
        with tc True Some show ?thesis by (simp add: implNode_implUpdate_at)
      next
        case False
        then have "am \<noteq> q" by simp
        then have "map_option analyses_map (implNode am (implUpdate q (\<lambda>_. ?impl') root)) =
            map_option analyses_map (implNode am root)"
          using Some by (intro implUpdate_frame_own) simp_all
        with assms(2,3) tc show ?thesis by auto
      qed
    qed
  qed
qed

lemma treeCalls_keeps_cell:
  assumes "\<forall>c \<in> set cs. \<not> evicts (snd c)" and "implNode am root = Some n"
    and "map_of (analyses (analyses_map n)) tid = Some cell"
  shows "\<exists>n'. implNode am (snd (treeCalls pi cs (w, root))) = Some n'
            \<and> map_of (analyses (analyses_map n')) tid = Some cell"
  using assms
proof (induction cs arbitrary: w root n)
  case Nil
  then show ?case by simp
next
  case (Cons c cs)
  obtain w1 root1 where s1: "treeCall pi c (w, root) = (w1, root1)"
    by (cases "treeCall pi c (w, root)")
  from Cons.prems have "\<not> evicts (snd c)" by simp
  from treeCall_keeps_cell [OF this Cons.prems(2,3), of pi w] s1
  obtain n1 where n1: "implNode am root1 = Some n1"
    "map_of (analyses (analyses_map n1)) tid = Some cell"
    by auto
  from Cons.prems have "\<forall>c \<in> set cs. \<not> evicts (snd c)" by simp
  from Cons.IH [OF this n1, of w1] s1 show ?case by simp
qed

text \<open>
  C7. A manager \<open>am\<close> of an existing map calls \<^verbatim>\<open>getAnalysis<T>()\<close>; then any
  calls other than \<^verbatim>\<open>invalidate\<close> and \<^verbatim>\<open>clear\<close> are made through any managers
  of the tree; then \<open>am\<close> calls \<^verbatim>\<open>getAnalysis<T>()\<close> again. The second call returns
  the reference the first one returned (the same object, by its serial number), and
  constructs and changes nothing. And the cache of an operation, from its construction
  on and after every sequence of calls, holds at most one cell per analysis type.
\<close>

theorem getAnalysis_same_instance:
  assumes "implNode am root = Some impl"
    and "AnalysisManager_getAnalysis T pi w impl = (r1, w1, impl1)"
    and "\<forall>c \<in> set cs. \<not> evicts (snd c)"
    and "treeCalls pi cs (w1, implUpdate am (\<lambda>_. impl1) root) = (w2, root2)"
  shows "(\<exists>impl2. implNode am root2 = Some impl2
            \<and> AnalysisManager_getAnalysis T pi w2 impl2 = (r1, w2, impl2))
    \<and> oneCellPerType (snd (mapCalls pi' calls (w0, AnalysisMap_new opr)))"
proof
  obtain m1 where
    m1: "getAnalysisImpl T pi (ir (analyses_map impl)) w (analyses_map impl) = (r1, w1, m1)"
    and impl1: "impl1 = NestedAnalysisMap (childAnalyses impl) m1"
    using assms(2)
    by (auto simp: AnalysisManager_getAnalysis_def AnalysisMap_getAnalysis_def split: prod.splits)
  from getAnalysisImpl_caches [OF m1] obtain cell where
    cell: "map_of (analyses m1) (typeID T) = Some cell" "r1 = analysisRef cell" by blast
  have at1: "implNode am (implUpdate am (\<lambda>_. impl1) root) = Some impl1"
    using assms(1) by (simp add: implNode_implUpdate_at)
  have "map_of (analyses (analyses_map impl1)) (typeID T) = Some cell"
    using cell impl1 by simp
  from treeCalls_keeps_cell [OF assms(3) at1 this, of pi w1] assms(4)
  obtain impl2 where impl2: "implNode am root2 = Some impl2"
    "map_of (analyses (analyses_map impl2)) (typeID T) = Some cell" by auto
  have "AnalysisManager_getAnalysis T pi w2 impl2 = (r1, w2, impl2)"
    using impl2(2) cell(2)
    by (simp add: AnalysisManager_getAnalysis_def AnalysisMap_getAnalysis_def getAnalysisImpl_def)
  with impl2(1) show "\<exists>impl2. implNode am root2 = Some impl2
            \<and> AnalysisManager_getAnalysis T pi w2 impl2 = (r1, w2, impl2)" by blast
next
  have "oneCellPerType (snd (w0, AnalysisMap_new opr :: 'b AnalysisMap))"
    by (simp add: oneCellPerType_def AnalysisMap_new_def)
  then show "oneCellPerType (snd (mapCalls pi' calls (w0, AnalysisMap_new opr)))"
    by (rule oneCellPerType_mapCalls)
qed

theorem getAnalysis_same_instance_witness:
  "(let g1 = AnalysisManager_getAnalysis Liveness (Some 5) World_new (NestedAnalysisMap_new 7);
        s2 = treeCalls (Some 5)
               [([], CallGetAnalysis DominatorTree), ([], CallGetCachedAnalysis Liveness)]
               (fst (snd g1), implUpdate [] (\<lambda>_. snd (snd g1)) (NestedAnalysisMap_new 7))
    in fst g1 = (0, 8)
       \<and> \<not> evicts (CallGetAnalysis DominatorTree)
       \<and> \<not> evicts (CallGetCachedAnalysis Liveness)
       \<and> nextInstance (fst s2) = 2
       \<and> AnalysisManager_getAnalysis Liveness (Some 5) (fst s2) (snd s2) = ((0, 8), fst s2, snd s2)
       \<and> oneCellPerType
            (snd (mapCalls (Some 5) [GetAnalysis Liveness, GetAnalysis Liveness]
               (World_new, AnalysisMap_new 7))))"
proof -
  let ?root = "NestedAnalysisMap_new 7 :: nat NestedAnalysisMap"
  let ?cs = "[([], CallGetAnalysis DominatorTree), ([], CallGetCachedAnalysis Liveness)]"
  let ?g1 = "AnalysisManager_getAnalysis Liveness (Some 5) World_new ?root"
  let ?s2 = "treeCalls (Some 5) ?cs (fst (snd ?g1), implUpdate [] (\<lambda>_. snd (snd ?g1)) ?root)"
  have v: "implNode [] ?root = Some ?root" by simp
  have g: "?g1 = (fst ?g1, fst (snd ?g1), snd (snd ?g1))" by simp
  have n: "\<forall>c \<in> set ?cs. \<not> evicts (snd c)" by simp
  have t: "?s2 = (fst ?s2, snd ?s2)" by simp
  have r: "fst ?g1 = (0, 8)"
    by (simp add: AnalysisManager_getAnalysis_parts getAnalysisImpl_result
        NestedAnalysisMap_new_def AnalysisMap_new_def World_new_def Liveness_def)
  have k: "nextInstance (fst ?s2) = 2"
    by (simp add: AnalysisManager_getAnalysis_def AnalysisMap_getAnalysis_def
        getAnalysisImpl_def make_unique_AnalysisModel_def runBeforeAnalysis_def
        runAfterAnalysis_def NestedAnalysisMap_new_def AnalysisMap_new_def World_new_def
        Liveness_def DominatorTree_def Let_def)
  from getAnalysis_same_instance [OF v g n t,
      of "Some 5" "[GetAnalysis Liveness, GetAnalysis Liveness]" World_new 7]
  have "AnalysisManager_getAnalysis Liveness (Some 5) (fst ?s2) (snd ?s2)
          = (fst ?g1, fst ?s2, snd ?s2)"
    and "oneCellPerType
            (snd (mapCalls (Some 5) [GetAnalysis Liveness, GetAnalysis Liveness]
               (World_new, AnalysisMap_new 7 :: nat AnalysisMap)))"
    by auto
  with r k show ?thesis by (simp add: Let_def)
qed

text \<open>
  C10. Immediately after \<^verbatim>\<open>getAnalysis<T>()\<close> returns through a manager of an
  existing map, whatever the cache held before, the manager still points to the map
  the call left, and \<^verbatim>\<open>getCachedAnalysis<T>()\<close> on it is present and is the very
  reference \<^verbatim>\<open>getAnalysis\<close> returned.
\<close>

theorem getCachedAnalysis_after_getAnalysis:
  assumes "implNode am root = Some impl"
    and "AnalysisManager_getAnalysis T pi w impl = (r, w', impl')"
  shows "implNode am (implUpdate am (\<lambda>_. impl') root) = Some impl'
    \<and> AnalysisManager_getCachedAnalysis T impl' = Some r"
proof
  show "implNode am (implUpdate am (\<lambda>_. impl') root) = Some impl'"
    using assms(1) by (simp add: implNode_implUpdate_at)
  obtain m' where
    m': "getAnalysisImpl T pi (ir (analyses_map impl)) w (analyses_map impl) = (r, w', m')"
    and impl': "impl' = NestedAnalysisMap (childAnalyses impl) m'"
    using assms(2)
    by (auto simp: AnalysisManager_getAnalysis_def AnalysisMap_getAnalysis_def split: prod.splits)
  from getAnalysisImpl_caches [OF m'] impl'
  show "AnalysisManager_getCachedAnalysis T impl' = Some r"
    by (auto simp: AnalysisManager_getCachedAnalysis_def getCachedAnalysis_def)
qed

theorem getCachedAnalysis_after_getAnalysis_witness:
  "implNode [1] exampleTree =
     Some (NestedAnalysisMap [(3, NestedAnalysisMap [] (livenessCell 3))] (livenessCell 1))
   \<and> fst (AnalysisManager_getAnalysis DominatorTree None World_new
        (NestedAnalysisMap [(3, NestedAnalysisMap [] (livenessCell 3))] (livenessCell 1))) = (0, 2)
   \<and> AnalysisManager_getCachedAnalysis DominatorTree
        (snd (snd (AnalysisManager_getAnalysis DominatorTree None World_new
          (NestedAnalysisMap [(3, NestedAnalysisMap [] (livenessCell 3))] (livenessCell 1)))))
       = Some (0, 2)"
proof -
  let ?impl = "NestedAnalysisMap [(3, NestedAnalysisMap [] (livenessCell 3))] (livenessCell 1)"
  let ?g = "AnalysisManager_getAnalysis DominatorTree None World_new ?impl"
  have v: "implNode [1] exampleTree = Some ?impl" by (simp add: exampleTree_def)
  have g: "?g = (fst ?g, fst (snd ?g), snd (snd ?g))" by simp
  have r: "fst ?g = (0, 2)"
    by (simp add: AnalysisManager_getAnalysis_parts getAnalysisImpl_result livenessCell_def
        World_new_def DominatorTree_def)
  from getCachedAnalysis_after_getAnalysis [OF v g] v r show ?thesis by simp
qed

text \<open>
  C8. When the parent of \<open>opr\<close> is the operation of the manager's map,
  \<^verbatim>\<open>getCachedChildAnalysis<T>(opr)\<close> answers absent when \<^verbatim>\<open>childAnalyses\<close> has no
  map for \<open>opr\<close> and what the child's cache holds for \<open>T\<close> (absent or the reference)
  when it has one; and the call leaves the whole tree and the surroundings as they
  were: no map is created and nothing is constructed.
\<close>

theorem getCachedChildAnalysis_reads_only:
  assumes "getParentOp opr = Some (NestedAnalysisMap_getOperation impl)"
  shows "AnalysisManager_getCachedChildAnalysis getParentOp T opr impl =
           Inr (case implNode [opr] impl of
                  None \<Rightarrow> None
                | Some child \<Rightarrow> AnalysisManager_getCachedAnalysis T child)
    \<and> treeCall pi (am, CallGetCachedChildAnalysis T opr) (w, root) = (w, root)"
proof
  show "AnalysisManager_getCachedChildAnalysis getParentOp T opr impl =
           Inr (case implNode [opr] impl of
                  None \<Rightarrow> None
                | Some child \<Rightarrow> AnalysisManager_getCachedAnalysis T child)"
    using assms
    by (simp add: AnalysisManager_getCachedChildAnalysis_def
        AnalysisManager_getCachedAnalysis_def split: option.splits)
  show "treeCall pi (am, CallGetCachedChildAnalysis T opr) (w, root) = (w, root)"
    by (simp add: implUpdate_same split: option.splits)
qed

theorem getCachedChildAnalysis_reads_only_witness:
  "map_of [(1, 0), (9, 0)] 1 = Some (NestedAnalysisMap_getOperation exampleTree)
   \<and> AnalysisManager_getCachedChildAnalysis (map_of [(1, 0), (9, 0)]) Liveness 1 exampleTree
       = Inr (Some (1, 2))
   \<and> map_of [(1, 0), (9, 0)] 9 = Some (NestedAnalysisMap_getOperation exampleTree)
   \<and> implNode [9] exampleTree = None
   \<and> AnalysisManager_getCachedChildAnalysis (map_of [(1, 0), (9, 0)]) Liveness 9 exampleTree
       = Inr None
   \<and> treeCall (Some 5) ([], CallGetCachedChildAnalysis Liveness 9) (World_new, exampleTree)
       = (World_new, exampleTree)"
proof -
  let ?parent = "map_of [(1::nat, 0::nat), (9, 0)]"
  have p1: "?parent 1 = Some (NestedAnalysisMap_getOperation exampleTree)"
    and p9: "?parent 9 = Some (NestedAnalysisMap_getOperation exampleTree)"
    by (simp_all add: NestedAnalysisMap_getOperation_def getOperation_def exampleTree_def
        livenessCell_def)
  have c1: "implNode [1] exampleTree =
      Some (NestedAnalysisMap [(3, NestedAnalysisMap [] (livenessCell 3))] (livenessCell 1))"
    and c9: "implNode [9] exampleTree = None"
    by (simp_all add: exampleTree_def)
  have l: "AnalysisManager_getCachedAnalysis Liveness
      (NestedAnalysisMap [(3, NestedAnalysisMap [] (livenessCell 3))] (livenessCell 1)) = Some (1, 2)"
    by (simp add: AnalysisManager_getCachedAnalysis_def getCachedAnalysis_def livenessCell_def
        Liveness_def analysisRef_def)
  from getCachedChildAnalysis_reads_only
         [where getParentOp = ?parent and opr = 1 and impl = exampleTree and T = Liveness
            and pi = "Some 5" and am = "[]" and w = World_new and root = exampleTree]
       getCachedChildAnalysis_reads_only
         [where getParentOp = ?parent and opr = 9 and impl = exampleTree and T = Liveness
            and pi = "Some 5" and am = "[]" and w = World_new and root = exampleTree]
       p1 p9 c1 c9 l
  show ?thesis by simp
qed

end
